theory Spec2Isabelle
  imports Main "HOL-Library.Word" "HOL-Library.Product_Lexorder"
begin

unbundle bit_operations_syntax

section \<open>Acceleration-scheme selection (src/nfa/accelcompile.cpp)\<close>

text \<open>
  The file selects, for one automaton state, the scan primitive that skips input up to
  the next stop byte or stop pair. It has four functions: \<open>buildAccelSingle\<close>,
  \<open>isCaselessDouble\<close>, \<open>buildAccelDouble\<close> and the entry point \<open>buildAccelAux\<close>.
  They are embedded below in the order of the source. The output parameter
  \<open>AccelAux *aux\<close> is passed in and returned; a failed \<open>assert\<close> and a failed
  \<open>verify_u8\<close> are error values.
\<close>

subsection \<open>Data\<close>

type_synonym u8 = "8 word"
type_synonym u32 = "32 word"

text \<open>
  \<open>struct AccelInfo\<close>. The two stop sets are \<open>CharReach\<close> values, a set of byte
  values; \<open>double_stop2\<close> is a \<open>flat_set<pair<u8, u8>>\<close>, a set kept as a sorted
  vector. The offsets are read into \<open>u32\<close> locals.
\<close>

record AccelInfo =
  single_offset :: u32
  double_offset :: u32
  double_stop1 :: "u8 set"
  double_stop2 :: "(u8 \<times> u8) set"
  single_stops :: "u8 set"

text \<open>The values of \<open>aux->accel_type\<close> that the file assigns or tests.\<close>

datatype AccelType =
    ACCEL_NONE
  | ACCEL_RED_TAPE
  | ACCEL_VERM
  | ACCEL_VERM_NOCASE
  | ACCEL_SHUFTI
  | ACCEL_TRUFFLE
  | ACCEL_DVERM
  | ACCEL_DVERM_NOCASE
  | ACCEL_DSHUFTI

text \<open>
  Modelled from the spec: the declaration of \<open>union AccelAux\<close> (accel.h) is not part of
  the sources. The descriptor is the tagged variant \<open>SchemeDescriptor\<close> of the spec, one
  constructor for each member of the union that the file writes, with the fields the
  file assigns: \<open>verm\<close> (offset, c), \<open>shufti\<close> (offset, lo, hi), \<open>truffle\<close>
  (offset, mask1, mask2), \<open>dverm\<close> (offset, c1, c2), \<open>dshufti\<close> (offset, lo1, hi1,
  lo2, hi2). The spec gives the offset field no width, so it holds the number stored
  into it. The mask type \<open>'m\<close> is left open.
\<close>

datatype 'm AccelAux =
    NoAccel
  | RedTape nat
  | ExactByte nat u8
  | ExactByteCI nat u8
  | ByteClassTable nat 'm 'm
  | FullBitmap nat 'm 'm
  | ExactPair nat u8 u8
  | ExactPairCI nat u8 u8
  | PairClassTable nat 'm 'm 'm 'm

fun accel_type :: "'m AccelAux \<Rightarrow> AccelType" where
  "accel_type NoAccel = ACCEL_NONE"
| "accel_type (RedTape off) = ACCEL_RED_TAPE"
| "accel_type (ExactByte off c) = ACCEL_VERM"
| "accel_type (ExactByteCI off c) = ACCEL_VERM_NOCASE"
| "accel_type (ByteClassTable off lo hi) = ACCEL_SHUFTI"
| "accel_type (FullBitmap off m1 m2) = ACCEL_TRUFFLE"
| "accel_type (ExactPair off c1 c2) = ACCEL_DVERM"
| "accel_type (ExactPairCI off c1 c2) = ACCEL_DVERM_NOCASE"
| "accel_type (PairClassTable off lo1 hi1 lo2 hi2) = ACCEL_DSHUFTI"

text \<open>
  \<open>aux->generic.offset\<close>: the offset of the active variant. The source reads it only
  after \<open>accel_type == ACCEL_NONE\<close> has been ruled out; \<open>NoAccel\<close> has none.
\<close>

fun generic_offset :: "'m AccelAux \<Rightarrow> nat option" where
  "generic_offset NoAccel = None"
| "generic_offset (RedTape off) = Some off"
| "generic_offset (ExactByte off c) = Some off"
| "generic_offset (ExactByteCI off c) = Some off"
| "generic_offset (ByteClassTable off lo hi) = Some off"
| "generic_offset (FullBitmap off m1 m2) = Some off"
| "generic_offset (ExactPair off c1 c2) = Some off"
| "generic_offset (ExactPairCI off c1 c2) = Some off"
| "generic_offset (PairClassTable off lo1 hi1 lo2 hi2) = Some off"

datatype error = AssertFailed | VerifyFailed

subsection \<open>What the file uses from other files\<close>

text \<open>
  The mask builders and the tuning constant are declared in shufticompile.h,
  trufflecompile.h and ng_limex_accel.h, none of them in the sources; they are
  parameters of the model. \<open>shuftiBuildMasks\<close> returns \<open>-1\<close> when it cannot
  encode the set, which is \<open>None\<close> here.
\<close>

record 'm Extern =
  shuftiBuildMasks :: "u8 set \<Rightarrow> ('m \<times> 'm) option"
  truffleBuildMasks :: "u8 set \<Rightarrow> 'm \<times> 'm"
  shuftiBuildDoubleMasks :: "u8 set \<Rightarrow> (u8 \<times> u8) set \<Rightarrow> 'm \<times> 'm \<times> 'm \<times> 'm"
  ACCEL_MAX_STOP_CHAR :: nat

text \<open>
  Modelled from the spec: \<open>CASE_CLEAR\<close> (a constant of a header that is not in the
  sources), the mask that clears the case bit of a byte: the spec's scenario stores
  \<open>0x41\<close> for the stop set \<open>{0x41, 0x61}\<close>.
\<close>

definition CASE_CLEAR :: u8 where
  "CASE_CLEAR = 0xdf"

text \<open>
  Modelled from the spec: \<open>verify_u8\<close> (util/verify_types.h, not in the sources),
  the spec's \<open>asU8\<close>: it fails fatally if the value is above 255 and returns the
  value as a byte otherwise. Its argument is a \<open>size_t\<close>.
\<close>

definition verify_u8 :: "nat \<Rightarrow> error + u8" where
  "verify_u8 val = (if 255 < val then Inl VerifyFailed else Inr (of_nat val))"

text \<open>
  The class \<open>CharReach\<close> is not in the sources. The spec describes a value of it
  as a set over the 256 byte values; the operations the file calls are modelled on
  that set.
\<close>

text \<open>
  Modelled from the spec: \<open>CharReach::count\<close>, the number of bytes in the set.
\<close>

definition cr_count :: "u8 set \<Rightarrow> nat" where
  "cr_count cr = card cr"

text \<open>
  Modelled from the spec: \<open>CharReach::all\<close>, the set contains all 256 bytes.
\<close>

definition cr_all :: "u8 set \<Rightarrow> bool" where
  "cr_all cr = (card cr = 256)"

text \<open>
  Modelled from the spec: \<open>CharReach::none\<close>, the set is empty.
\<close>

definition cr_none :: "u8 set \<Rightarrow> bool" where
  "cr_none cr = (card cr = 0)"

text \<open>
  Modelled from the spec: \<open>CharReach::find_first\<close>, the least byte of the set (the
  sole byte of a set of one). The file calls it on sets that are not empty.
\<close>

definition find_first :: "u8 set \<Rightarrow> u8" where
  "find_first cr = Min cr"

text \<open>
  Modelled from the spec: \<open>CharReach::isCaselessChar\<close> (not in the sources): the set
  has two members and they are the upper-case and lower-case variants of one letter.
\<close>

definition isCaselessChar :: "u8 set \<Rightarrow> bool" where
  "isCaselessChar cr =
     (card cr = 2 \<and> 0x41 \<le> Min cr \<and> Min cr \<le> 0x5A \<and> Max cr = Min cr OR 0x20)"

text \<open>
  \<open>flat_set\<close>: the members in increasing order (pairs are ordered by \<open>first\<close>, then
  by \<open>second\<close>), \<open>begin()\<close> the first of them.
\<close>

definition flat_elems :: "(u8 \<times> u8) set \<Rightarrow> (u8 \<times> u8) list" where
  "flat_elems s = sorted_list_of_set s"

definition flat_begin :: "(u8 \<times> u8) set \<Rightarrow> u8 \<times> u8" where
  "flat_begin s = hd (flat_elems s)"

subsection \<open>buildAccelSingle\<close>

definition buildAccelSingle ::
  "'m Extern \<Rightarrow> AccelInfo \<Rightarrow> 'm AccelAux \<Rightarrow> error + 'm AccelAux" where
  "buildAccelSingle B info aux =
     (if accel_type aux \<noteq> ACCEL_NONE then Inl AssertFailed
      else if cr_all (single_stops info) then Inr aux
      else
        let outs = cr_count (single_stops info) in
        if \<not> (outs \<noteq> 0 \<and> outs < 256) then Inl AssertFailed
        else
          let offset = single_offset info in
          if outs = 1 then
            Inr (ExactByte (unat offset) (find_first (single_stops info)))
          else if outs = 2 \<and> isCaselessChar (single_stops info) then
            Inr (ExactByteCI (unat offset) (find_first (single_stops info) AND CASE_CLEAR))
          else
            (case shuftiBuildMasks B (single_stops info) of
               Some (lo, hi) \<Rightarrow> Inr (ByteClassTable (unat offset) lo hi)
             | None \<Rightarrow>
                 if outs \<le> ACCEL_MAX_STOP_CHAR B then
                   (case truffleBuildMasks B (single_stops info) of
                      (mask1, mask2) \<Rightarrow> Inr (FullBitmap (unat offset) mask1 mask2))
                 else Inr aux))"

subsection \<open>isCaselessDouble\<close>

text \<open>The loop over the members of the set, leaving at the first mismatch.\<close>

fun caseless_loop :: "u8 \<Rightarrow> u8 \<Rightarrow> (u8 \<times> u8) list \<Rightarrow> bool" where
  "caseless_loop a b [] = True"
| "caseless_loop a b (it # rest) =
     (if fst it AND CASE_CLEAR \<noteq> a \<or> snd it AND CASE_CLEAR \<noteq> b then False
      else caseless_loop a b rest)"

definition isCaselessDouble :: "(u8 \<times> u8) set \<Rightarrow> bool" where
  "isCaselessDouble stop =
     (if card stop \<noteq> 4 then False
      else
        let a = fst (flat_begin stop) AND CASE_CLEAR;
            b = snd (flat_begin stop) AND CASE_CLEAR
        in caseless_loop a b (flat_elems stop))"

subsection \<open>buildAccelDouble\<close>

definition buildAccelDouble ::
  "'m Extern \<Rightarrow> AccelInfo \<Rightarrow> 'm AccelAux \<Rightarrow> error + 'm AccelAux" where
  "buildAccelDouble B info aux =
     (let outs1 = cr_count (double_stop1 info);
          outs2 = card (double_stop2 info)
      in
      case verify_u8 (unat (double_offset info)) of
        Inl e \<Rightarrow> Inl e
      | Inr offset \<Rightarrow>
          if accel_type aux \<noteq> ACCEL_NONE then Inl AssertFailed
          else if outs2 = 0 then Inr aux
          else if outs1 = 0 \<and> outs2 = 1 then
            Inr (ExactPair (unat offset)
                   (fst (flat_begin (double_stop2 info)))
                   (snd (flat_begin (double_stop2 info))))
          else if outs1 = 0 \<and> isCaselessDouble (double_stop2 info) then
            Inr (ExactPairCI (unat offset)
                   (fst (flat_begin (double_stop2 info)) AND CASE_CLEAR)
                   (snd (flat_begin (double_stop2 info)) AND CASE_CLEAR))
          else if outs1 + outs2 \<le> 8 \<and> (outs1 < outs2 \<and> outs1 \<le> 2) then
            (case shuftiBuildDoubleMasks B (double_stop1 info) (double_stop2 info) of
               (lo1, hi1, lo2, hi2) \<Rightarrow> Inr (PairClassTable (unat offset) lo1 hi1 lo2 hi2))
          else Inr NoAccel)"

subsection \<open>buildAccelAux\<close>

definition buildAccelAux ::
  "'m Extern \<Rightarrow> AccelInfo \<Rightarrow> 'm AccelAux \<Rightarrow> error + ('m AccelAux \<times> bool)" where
  "buildAccelAux B info aux =
     (if accel_type aux \<noteq> ACCEL_NONE then Inl AssertFailed
      else
        case (if cr_none (single_stops info)
              then Inr (RedTape (unat (single_offset info)))
              else buildAccelDouble B info aux) of
          Inl e \<Rightarrow> Inl e
        | Inr aux1 \<Rightarrow>
            (case (if accel_type aux1 = ACCEL_NONE
                   then buildAccelSingle B info aux1 else Inr aux1) of
               Inl e \<Rightarrow> Inl e
             | Inr aux2 \<Rightarrow>
                 if \<not> (accel_type aux2 = ACCEL_NONE
                        \<or> generic_offset aux2 = Some (unat (single_offset info))
                        \<or> generic_offset aux2 = Some (unat (double_offset info)))
                 then Inl AssertFailed
                 else Inr (aux2, accel_type aux2 \<noteq> ACCEL_NONE)))"

subsection \<open>Concrete inputs\<close>

text \<open>
  Stand-ins for the external builders, to run the selector on concrete inputs: a table
  builder that declines every set, fixed masks, and a maximum stop-character count of 3.
\<close>

definition example_extern :: "nat Extern" where
  "example_extern =
     \<lparr> shuftiBuildMasks = (\<lambda>cr. None),
       truffleBuildMasks = (\<lambda>cr. (1, 2)),
       shuftiBuildDoubleMasks = (\<lambda>cr stop. (3, 4, 5, 6)),
       ACCEL_MAX_STOP_CHAR = 3 \<rparr>"

text \<open>
  Inputs: a single pair with a single stop byte beside it; no stop byte at all; an
  offset that does not fit in a byte; the two cases of one
  letter; two unrelated bytes; three and four bytes; every byte; and first bytes and
  pairs on both sides of the heuristic of \<open>buildAccelDouble\<close>.
\<close>

definition info_pair :: AccelInfo where
  "info_pair = \<lparr>single_offset = 3, double_offset = 5, double_stop1 = {},
                  double_stop2 = {(0x41, 0x42)}, single_stops = {0x41}\<rparr>"

definition info_no_stops :: AccelInfo where
  "info_no_stops = \<lparr>single_offset = 3, double_offset = 300, double_stop1 = {7},
                      double_stop2 = {(0x41, 0x42)}, single_stops = {}\<rparr>"

definition info_no_stops_pair :: AccelInfo where
  "info_no_stops_pair = \<lparr>single_offset = 3, double_offset = 5, double_stop1 = {},
                           double_stop2 = {(0x41, 0x42)}, single_stops = {}\<rparr>"

definition info_wide_offset :: AccelInfo where
  "info_wide_offset = \<lparr>single_offset = 3, double_offset = 300, double_stop1 = {},
                         double_stop2 = {}, single_stops = {0x41}\<rparr>"

definition info_letter :: AccelInfo where
  "info_letter = \<lparr>single_offset = 0, double_offset = 0, double_stop1 = {},
                    double_stop2 = {}, single_stops = {0x41, 0x61}\<rparr>"

definition info_two_bytes :: AccelInfo where
  "info_two_bytes = \<lparr>single_offset = 0, double_offset = 0, double_stop1 = {},
                       double_stop2 = {}, single_stops = {0x41, 0x42}\<rparr>"

definition info_three_bytes :: AccelInfo where
  "info_three_bytes = \<lparr>single_offset = 7, double_offset = 0, double_stop1 = {},
                         double_stop2 = {}, single_stops = {1, 2, 3}\<rparr>"

definition info_four_bytes :: AccelInfo where
  "info_four_bytes = \<lparr>single_offset = 7, double_offset = 0, double_stop1 = {},
                        double_stop2 = {}, single_stops = {1, 2, 3, 4}\<rparr>"

definition info_all_bytes :: AccelInfo where
  "info_all_bytes = \<lparr>single_offset = 0, double_offset = 0, double_stop1 = {},
                       double_stop2 = {}, single_stops = UNIV\<rparr>"

definition info_heuristic :: AccelInfo where
  "info_heuristic = \<lparr>single_offset = 0, double_offset = 5, double_stop1 = {1},
                       double_stop2 = {(1, 2), (3, 4)}, single_stops = {9}\<rparr>"

definition info_heuristic_fails :: AccelInfo where
  "info_heuristic_fails = \<lparr>single_offset = 0, double_offset = 5, double_stop1 = {1, 2},
                             double_stop2 = {(1, 2), (3, 4)}, single_stops = {9}\<rparr>"

subsection \<open>The words of the claims\<close>

text \<open>
  The three conditions under which \<open>buildAccelDouble\<close> sets a scheme, in the order of
  the source, after its test that there is a pair at all.
\<close>

definition double_scheme_applies :: "AccelInfo \<Rightarrow> bool" where
  "double_scheme_applies info =
     (let outs1 = cr_count (double_stop1 info);
          outs2 = card (double_stop2 info)
      in outs2 \<noteq> 0 \<and>
         (outs1 = 0 \<and> outs2 = 1
          \<or> outs1 = 0 \<and> isCaselessDouble (double_stop2 info)
          \<or> outs1 + outs2 \<le> 8 \<and> outs1 < outs2 \<and> outs1 \<le> 2))"

text \<open>
  Letters, the case toggle of a byte, and two bytes that are the two cases of one
  letter.
\<close>

definition is_letter :: "u8 \<Rightarrow> bool" where
  "is_letter c = (0x41 \<le> c \<and> c \<le> 0x5A \<or> 0x61 \<le> c \<and> c \<le> 0x7A)"

definition case_toggle :: "u8 \<Rightarrow> u8" where
  "case_toggle c = c XOR 0x20"

definition case_variants :: "u8 \<Rightarrow> u8 \<Rightarrow> bool" where
  "case_variants x y = (is_letter x \<and> y = case_toggle x)"

text \<open>
  The case-insensitive-pair predicate in the words of the spec: four members, the
  combinations of a letter and its case toggle in each position.
\<close>

definition spec_isCaselessDouble :: "(u8 \<times> u8) set \<Rightarrow> bool" where
  "spec_isCaselessDouble stop =
     (card stop = 4 \<and>
      (\<exists>x\<in>stop. is_letter (fst x) \<and> is_letter (snd x) \<and>
         stop = {fst x, case_toggle (fst x)} \<times> {snd x, case_toggle (snd x)}))"

section \<open>Basic facts\<close>

subsection \<open>Byte sets and the offset check\<close>

lemma card_u8_le: "card (cr :: u8 set) \<le> 256"
proof -
  have "card cr \<le> card (UNIV :: u8 set)" by (rule card_mono) simp_all
  then show ?thesis by (simp add: card_word)
qed

lemma card_u8_full: "card (cr :: u8 set) = 256 \<longleftrightarrow> cr = UNIV"
proof
  assume "card cr = 256"
  then have "card cr = card (UNIV :: u8 set)" by (simp add: card_word)
  then show "cr = UNIV" by (simp add: card_eq_UNIV_imp_eq_UNIV)
next
  assume "cr = UNIV" then show "card cr = 256" by (simp add: card_word)
qed

lemma cr_none_iff: "cr_none cr \<longleftrightarrow> cr = {}"
  by (simp add: cr_none_def)

lemma cr_all_iff: "cr_all cr \<longleftrightarrow> cr = UNIV"
  by (simp add: cr_all_def card_u8_full)

lemma pair_not_full: "p \<noteq> q \<Longrightarrow> {p, q} \<noteq> (UNIV :: u8 set)"
proof
  assume "p \<noteq> q" and "{p, q} = (UNIV :: u8 set)"
  then have "card {p, q} = card (UNIV :: u8 set)" by simp
  with \<open>p \<noteq> q\<close> show False by (simp add: card_word)
qed

lemma Min_Max_pair:
  fixes p q :: u8
  shows "p < q \<Longrightarrow> Min {p, q} = p \<and> Max {p, q} = q"
    and "q < p \<Longrightarrow> Min {p, q} = q \<and> Max {p, q} = p"
  by (auto simp: min_def max_def)

lemma verify_u8_unat: "verify_u8 n = Inr b \<Longrightarrow> unat b = n"
  by (auto simp: verify_u8_def unat_of_nat split: if_splits)

lemma verify_u8_Inr: "n \<le> 255 \<Longrightarrow> \<exists>b. verify_u8 n = Inr b \<and> unat b = n"
  by (simp add: verify_u8_def unat_of_nat)

subsection \<open>The case bit\<close>

lemma CASE_CLEAR_not: "CASE_CLEAR = NOT (2 ^ 5)"
  by (simp add: CASE_CLEAR_def)

lemma flip_then_clear: "(c XOR 2 ^ n) AND NOT (2 ^ n) = c AND NOT (2 ^ n)" for c :: u8
  by (rule bit_eqI) (auto simp add: bit_simps)

lemma clear_or_flip: "c = c AND NOT (2 ^ n) \<or> c = (c AND NOT (2 ^ n)) XOR 2 ^ n" for c :: u8
proof (cases "bit c n")
  case True
  have "c = (c AND NOT (2 ^ n)) XOR 2 ^ n"
    by (rule bit_eqI) (use True in \<open>auto simp add: bit_simps\<close>)
  then show ?thesis ..
next
  case False
  have "c = c AND NOT (2 ^ n)"
    by (rule bit_eqI) (use False in \<open>auto simp add: bit_simps\<close>)
  then show ?thesis ..
qed

lemma toggle_clear: "(c XOR 0x20) AND CASE_CLEAR = c AND CASE_CLEAR" for c :: u8
  using flip_then_clear [of c 5] by (simp add: CASE_CLEAR_not)

lemma clear_cases: "c = (c AND CASE_CLEAR) \<or> c = (c AND CASE_CLEAR) XOR 0x20" for c :: u8
  using clear_or_flip [of c 5] by (simp add: CASE_CLEAR_not)

lemma toggle_neq: "c XOR 0x20 \<noteq> c" for c :: u8
proof
  assume "c XOR 0x20 = c"
  then have "c XOR (c XOR 0x20) = c XOR c" by simp
  then have "(0x20 :: u8) = 0" by (simp flip: xor.assoc)
  then show False by simp
qed

lemma toggle_toggle: "(c XOR 0x20) XOR 0x20 = c" for c :: u8
  by (simp add: xor.assoc)

lemma same_clear:
  fixes c d :: u8
  assumes "c AND CASE_CLEAR = d AND CASE_CLEAR"
  shows "c = d \<or> c = case_toggle d"
proof -
  let ?m = "d AND CASE_CLEAR"
  from clear_cases [of c] assms have c: "c = ?m \<or> c = ?m XOR 0x20" by simp
  from clear_cases [of d] have d: "d = ?m \<or> d = ?m XOR 0x20" .
  from c d show ?thesis unfolding case_toggle_def
    by (metis toggle_toggle)
qed

text \<open>A property of the bytes of a range, checked on each of them.\<close>

lemma u8_range:
  assumes "list_all P (map of_nat [lo..<hi])" and "lo \<le> unat c" and "unat c < hi"
  shows "P (c :: u8)"
proof -
  have "of_nat (unat c) \<in> set (map (of_nat :: nat \<Rightarrow> u8) [lo..<hi])"
    using assms(2,3) by (simp del: of_nat_unat)
  with assms(1) have "P (of_nat (unat c))" unfolding list_all_iff by blast
  then show ?thesis by simp
qed

lemma upper_facts:
  fixes c :: u8
  assumes "0x41 \<le> c" and "c \<le> 0x5A"
  shows "c OR 0x20 = c XOR 0x20 \<and> c < c XOR 0x20 \<and> c AND CASE_CLEAR = c
     \<and> 0x61 \<le> c XOR 0x20 \<and> c XOR 0x20 \<le> 0x7A"
proof -
  have l: "list_all (\<lambda>c :: u8. c OR 0x20 = c XOR 0x20 \<and> c < c XOR 0x20 \<and> c AND CASE_CLEAR = c
     \<and> 0x61 \<le> c XOR 0x20 \<and> c XOR 0x20 \<le> 0x7A) (map of_nat [65..<91])"
    by code_simp
  have "65 \<le> unat c" using assms(1) by (simp add: word_le_nat_alt)
  moreover have "unat c < 91" using assms(2) by (simp add: word_le_nat_alt)
  ultimately show ?thesis by (rule u8_range [OF l])
qed

lemma lower_facts:
  fixes c :: u8
  assumes "0x61 \<le> c" and "c \<le> 0x7A"
  shows "c XOR 0x20 < c \<and> 0x41 \<le> c XOR 0x20 \<and> c XOR 0x20 \<le> 0x5A"
proof -
  have l: "list_all (\<lambda>c :: u8. c XOR 0x20 < c \<and> 0x41 \<le> c XOR 0x20 \<and> c XOR 0x20 \<le> 0x5A)
     (map of_nat [97..<123])"
    by code_simp
  have "97 \<le> unat c" using assms(1) by (simp add: word_le_nat_alt)
  moreover have "unat c < 123" using assms(2) by (simp add: word_le_nat_alt)
  ultimately show ?thesis by (rule u8_range [OF l])
qed

lemma case_variants_neq: "case_variants p q \<Longrightarrow> p \<noteq> q"
  using toggle_neq [of p] by (auto simp: case_variants_def case_toggle_def)

lemma isCaselessChar_pair:
  "isCaselessChar {p, q} \<longleftrightarrow> case_variants p q"
proof
  assume i: "isCaselessChar {p, q}"
  then have ne: "p \<noteq> q" by (auto simp: isCaselessChar_def)
  show "case_variants p q"
  proof (cases "p < q")
    case True
    then have m: "Min {p, q} = p" "Max {p, q} = q" by (simp_all add: Min_Max_pair)
    from i m have u: "0x41 \<le> p" "p \<le> 0x5A" and q: "q = p OR 0x20"
      by (simp_all add: isCaselessChar_def)
    from upper_facts [OF u] q show ?thesis
      using u by (simp add: case_variants_def is_letter_def case_toggle_def)
  next
    case False
    with ne have lt: "q < p" by simp
    then have m: "Min {p, q} = q" "Max {p, q} = p" by (simp_all add: Min_Max_pair)
    from i m have u: "0x41 \<le> q" "q \<le> 0x5A" and p: "p = q OR 0x20"
      by (simp_all add: isCaselessChar_def)
    from upper_facts [OF u] p have px: "p = q XOR 0x20" and l: "0x61 \<le> p" "p \<le> 0x7A"
      by simp_all
    from px have "q = p XOR 0x20" by (simp add: toggle_toggle)
    with l show ?thesis by (simp add: case_variants_def is_letter_def case_toggle_def)
  qed
next
  assume v: "case_variants p q"
  then have q: "q = p XOR 0x20" and l: "is_letter p"
    by (simp_all add: case_variants_def case_toggle_def)
  from case_variants_neq [OF v] have c2: "card {p, q} = 2" by simp
  from l show "isCaselessChar {p, q}" unfolding is_letter_def
  proof
    assume u: "0x41 \<le> p \<and> p \<le> 0x5A"
    then have u1: "0x41 \<le> p" and u2: "p \<le> 0x5A" by simp_all
    from upper_facts [OF u1 u2] q have "p < q" and "q = p OR 0x20" by simp_all
    then have "Min {p, q} = p" "Max {p, q} = q" "q = p OR 0x20" by (simp_all add: Min_Max_pair)
    with c2 u1 u2 show ?thesis by (simp add: isCaselessChar_def)
  next
    assume u: "0x61 \<le> p \<and> p \<le> 0x7A"
    then have u1: "0x61 \<le> p" and u2: "p \<le> 0x7A" by simp_all
    from lower_facts [OF u1 u2] q have lt: "q < p" and q1: "0x41 \<le> q" and q2: "q \<le> 0x5A"
      by simp_all
    from q have "p = q XOR 0x20" by (simp add: toggle_toggle)
    with upper_facts [OF q1 q2] have "p = q OR 0x20" by simp
    moreover from lt have "Min {p, q} = q" "Max {p, q} = p" by (simp_all add: Min_Max_pair)
    ultimately show ?thesis using c2 q1 q2 by (simp add: isCaselessChar_def)
  qed
qed

lemma case_variants_first:
  assumes "case_variants p q"
  shows "find_first {p, q} AND CASE_CLEAR = p AND CASE_CLEAR"
proof -
  from assms have q: "q = p XOR 0x20" by (simp add: case_variants_def case_toggle_def)
  have "Min {p, q} = p \<or> Min {p, q} = q" by (auto simp: min_def)
  then show ?thesis using toggle_clear [of p] q by (auto simp: find_first_def)
qed

subsection \<open>The pair set\<close>

lemma flat_elems_set: "set (flat_elems s) = s"
  by (simp add: flat_elems_def)

lemma flat_begin_single: "flat_begin {p} = p"
  by (simp add: flat_begin_def flat_elems_def)

lemma flat_begin_in: "s \<noteq> {} \<Longrightarrow> flat_begin s \<in> s"
proof -
  assume "s \<noteq> {}"
  then have "flat_elems s \<noteq> []" using flat_elems_set [of s] by auto
  then have "hd (flat_elems s) \<in> set (flat_elems s)" by (rule hd_in_set)
  then show ?thesis by (simp add: flat_begin_def flat_elems_set)
qed

lemma caseless_loop_iff:
  "caseless_loop a b ps \<longleftrightarrow>
     (\<forall>p\<in>set ps. fst p AND CASE_CLEAR = a \<and> snd p AND CASE_CLEAR = b)"
  by (induction ps) auto

lemma isCaselessDouble_iff:
  "isCaselessDouble stop \<longleftrightarrow>
     card stop = 4 \<and>
     (\<forall>p\<in>stop. fst p AND CASE_CLEAR = fst (flat_begin stop) AND CASE_CLEAR
              \<and> snd p AND CASE_CLEAR = snd (flat_begin stop) AND CASE_CLEAR)"
  by (simp add: isCaselessDouble_def Let_def caseless_loop_iff flat_elems_set)

lemma toggle_square_card:
  "card ({a, case_toggle a} \<times> {b, case_toggle b}) = 4"
proof -
  have "a \<noteq> case_toggle a" "b \<noteq> case_toggle b"
    using toggle_neq [of a] toggle_neq [of b] by (auto simp: case_toggle_def)
  then show ?thesis by (simp add: card_cartesian_product)
qed

lemma square_clear:
  assumes "p \<in> {a, case_toggle a} \<times> {b, case_toggle b}"
  shows "fst p AND CASE_CLEAR = a AND CASE_CLEAR \<and> snd p AND CASE_CLEAR = b AND CASE_CLEAR"
proof -
  from assms have "fst p = a \<or> fst p = a XOR 0x20" and "snd p = b \<or> snd p = b XOR 0x20"
    by (auto simp: case_toggle_def)
  then show ?thesis using toggle_clear [of a] toggle_clear [of b] by auto
qed

lemma square_is_caseless:
  "isCaselessDouble ({a, case_toggle a} \<times> {b, case_toggle b})"
proof -
  let ?T = "{a, case_toggle a} \<times> {b, case_toggle b}"
  have "?T \<noteq> {}" by simp
  then have "flat_begin ?T \<in> ?T" by (rule flat_begin_in)
  then have b: "fst (flat_begin ?T) AND CASE_CLEAR = a AND CASE_CLEAR
      \<and> snd (flat_begin ?T) AND CASE_CLEAR = b AND CASE_CLEAR"
    by (rule square_clear)
  have "\<forall>p\<in>?T. fst p AND CASE_CLEAR = fst (flat_begin ?T) AND CASE_CLEAR
              \<and> snd p AND CASE_CLEAR = snd (flat_begin ?T) AND CASE_CLEAR"
  proof
    fix p assume "p \<in> ?T"
    then have "fst p AND CASE_CLEAR = a AND CASE_CLEAR \<and> snd p AND CASE_CLEAR = b AND CASE_CLEAR"
      by (rule square_clear)
    with b show "fst p AND CASE_CLEAR = fst (flat_begin ?T) AND CASE_CLEAR
              \<and> snd p AND CASE_CLEAR = snd (flat_begin ?T) AND CASE_CLEAR"
      by (simp only:)
  qed
  moreover have "card ?T = 4" by (rule toggle_square_card)
  ultimately show ?thesis unfolding isCaselessDouble_iff by (intro conjI)
qed

lemma caseless_is_square:
  assumes c: "isCaselessDouble stop"
  shows "\<exists>x\<in>stop. stop = {fst x, case_toggle (fst x)} \<times> {snd x, case_toggle (snd x)}"
proof -
  from c have card4: "card stop = 4" by (simp add: isCaselessDouble_iff)
  then have ne: "stop \<noteq> {}" by auto
  let ?x = "flat_begin stop"
  let ?T = "{fst ?x, case_toggle (fst ?x)} \<times> {snd ?x, case_toggle (snd ?x)}"
  have x: "?x \<in> stop" by (rule flat_begin_in [OF ne])
  have "finite ?T" by simp
  moreover have "stop \<subseteq> ?T"
  proof
    fix p assume "p \<in> stop"
    with c have "fst p AND CASE_CLEAR = fst ?x AND CASE_CLEAR"
      and "snd p AND CASE_CLEAR = snd ?x AND CASE_CLEAR"
      by (simp_all add: isCaselessDouble_iff)
    then have "fst p = fst ?x \<or> fst p = case_toggle (fst ?x)"
      and "snd p = snd ?x \<or> snd p = case_toggle (snd ?x)"
      by (simp_all add: same_clear)
    then show "p \<in> ?T" by (cases p) auto
  qed
  moreover have "card ?T \<le> card stop" using card4 by (simp only: toggle_square_card)
  ultimately have "stop = ?T" by (rule card_seteq)
  then show ?thesis using x by (rule bexI)
qed

subsection \<open>The two selectors, started on \<open>NoAccel\<close>\<close>

lemma single_result:
  assumes "buildAccelSingle B info NoAccel = Inr aux"
  shows "aux = NoAccel \<or> generic_offset aux = Some (unat (single_offset info))"
  using assms
  by (auto simp: buildAccelSingle_def Let_def split: if_splits option.splits prod.splits)

lemma single_no_assert:
  assumes "single_stops info \<noteq> {}"
  shows "\<exists>aux. buildAccelSingle B info NoAccel = Inr aux"
proof -
  have "card (single_stops info) \<noteq> 0" using assms by simp
  moreover have "card (single_stops info) \<le> 256" by (rule card_u8_le)
  ultimately show ?thesis
    by (auto simp: buildAccelSingle_def Let_def cr_all_def cr_count_def
        split: option.splits prod.splits)
qed

lemma single_fallback:
  assumes "single_stops info \<noteq> {}" and "single_stops info \<noteq> UNIV"
    and "cr_count (single_stops info) \<noteq> 1"
    and "\<not> (cr_count (single_stops info) = 2 \<and> isCaselessChar (single_stops info))"
  shows "buildAccelSingle B info NoAccel =
     (case shuftiBuildMasks B (single_stops info) of
        Some (lo, hi) \<Rightarrow> Inr (ByteClassTable (unat (single_offset info)) lo hi)
      | None \<Rightarrow>
          if cr_count (single_stops info) \<le> ACCEL_MAX_STOP_CHAR B
          then (case truffleBuildMasks B (single_stops info) of
                  (mask1, mask2) \<Rightarrow> Inr (FullBitmap (unat (single_offset info)) mask1 mask2))
          else Inr NoAccel)"
proof -
  have "card (single_stops info) \<noteq> 0" using assms(1) by simp
  moreover have "card (single_stops info) \<noteq> 256" using assms(2) by (simp add: card_u8_full)
  moreover have "card (single_stops info) \<le> 256" by (rule card_u8_le)
  ultimately show ?thesis using assms(3,4)
    by (auto simp: buildAccelSingle_def Let_def cr_all_def cr_count_def
        split: option.splits prod.splits)
qed

lemma single_caseless:
  assumes "single_stops info = {p, q}" and "case_variants p q"
  shows "buildAccelSingle B info NoAccel =
           Inr (ExactByteCI (unat (single_offset info)) (p AND CASE_CLEAR))"
proof -
  from case_variants_neq [OF assms(2)] have c2: "card {p, q} = 2" by simp
  from assms(2) have i: "isCaselessChar {p, q}" by (simp add: isCaselessChar_pair)
  from c2 i case_variants_first [OF assms(2)] show ?thesis
    by (simp add: buildAccelSingle_def assms(1) cr_all_def cr_count_def Let_def)
qed

lemma double_result:
  assumes "buildAccelDouble B info NoAccel = Inr aux"
  shows "aux = NoAccel \<or> generic_offset aux = Some (unat (double_offset info))"
  using assms
  by (auto simp: buildAccelDouble_def Let_def
      split: if_splits prod.splits sum.splits dest: verify_u8_unat)

lemma double_ok:
  assumes "unat (double_offset info) \<le> 255"
  shows "\<exists>aux. buildAccelDouble B info NoAccel = Inr aux"
  using assms
  by (auto simp: buildAccelDouble_def Let_def verify_u8_def split: prod.splits)

lemma double_fail:
  "buildAccelDouble B info aux = Inl VerifyFailed \<longleftrightarrow> 255 < unat (double_offset info)"
  by (auto simp: buildAccelDouble_def Let_def verify_u8_def split: prod.splits)

lemma double_Inl: "buildAccelDouble B info NoAccel = Inl e \<Longrightarrow> e = VerifyFailed"
  by (auto simp: buildAccelDouble_def Let_def verify_u8_def split: prod.splits if_splits)

lemma double_heuristic:
  assumes "unat (double_offset info) \<le> 255"
    and "\<not> (cr_count (double_stop1 info) = 0 \<and> card (double_stop2 info) = 1)"
    and "\<not> (cr_count (double_stop1 info) = 0 \<and> isCaselessDouble (double_stop2 info))"
  shows "buildAccelDouble B info NoAccel =
     (if cr_count (double_stop1 info) + card (double_stop2 info) \<le> 8
         \<and> cr_count (double_stop1 info) < card (double_stop2 info)
         \<and> cr_count (double_stop1 info) \<le> 2
      then (case shuftiBuildDoubleMasks B (double_stop1 info) (double_stop2 info) of
              (lo1, hi1, lo2, hi2) \<Rightarrow>
                Inr (PairClassTable (unat (double_offset info)) lo1 hi1 lo2 hi2))
      else Inr NoAccel)"
proof -
  from verify_u8_Inr [OF assms(1)] obtain b
    where b: "verify_u8 (unat (double_offset info)) = Inr b" "unat b = unat (double_offset info)"
    by blast
  with assms(2,3) show ?thesis
    by (auto simp: buildAccelDouble_def Let_def split: prod.splits)
qed

lemma double_declines:
  assumes "unat (double_offset info) \<le> 255" and "\<not> double_scheme_applies info"
  shows "buildAccelDouble B info NoAccel = Inr NoAccel"
proof -
  from verify_u8_Inr [OF assms(1)] obtain b
    where b: "verify_u8 (unat (double_offset info)) = Inr b" "unat b = unat (double_offset info)"
    by blast
  with assms(2) show ?thesis
    by (auto simp: buildAccelDouble_def double_scheme_applies_def Let_def split: prod.splits)
qed

lemma double_applies:
  assumes "unat (double_offset info) \<le> 255" and "double_scheme_applies info"
  shows "\<exists>aux. buildAccelDouble B info NoAccel = Inr aux \<and>
           (accel_type aux = ACCEL_DVERM \<or> accel_type aux = ACCEL_DVERM_NOCASE
            \<or> accel_type aux = ACCEL_DSHUFTI)"
proof -
  from verify_u8_Inr [OF assms(1)] obtain b
    where b: "verify_u8 (unat (double_offset info)) = Inr b" "unat b = unat (double_offset info)"
    by blast
  with assms(2) show ?thesis
    by (auto simp: buildAccelDouble_def double_scheme_applies_def Let_def split: prod.splits)
qed

subsection \<open>The entry point, by the path taken\<close>

lemma aux_red_tape:
  "single_stops info = {} \<Longrightarrow>
     buildAccelAux B info NoAccel = Inr (RedTape (unat (single_offset info)), True)"
  by (simp add: buildAccelAux_def cr_none_def)

lemma aux_double_wins:
  assumes "single_stops info \<noteq> {}"
    and "buildAccelDouble B info NoAccel = Inr aux" and "accel_type aux \<noteq> ACCEL_NONE"
  shows "buildAccelAux B info NoAccel = Inr (aux, True)"
proof -
  from double_result [OF assms(2)] assms(3)
  have "generic_offset aux = Some (unat (double_offset info))" by auto
  with assms show ?thesis by (simp add: buildAccelAux_def cr_none_def)
qed

lemma aux_via_single:
  assumes "single_stops info \<noteq> {}"
    and "buildAccelDouble B info NoAccel = Inr NoAccel"
    and "buildAccelSingle B info NoAccel = Inr aux"
  shows "buildAccelAux B info NoAccel = Inr (aux, accel_type aux \<noteq> ACCEL_NONE)"
proof -
  from single_result [OF assms(3)]
  have "accel_type aux = ACCEL_NONE \<or> generic_offset aux = Some (unat (single_offset info))"
    by auto
  with assms show ?thesis by (auto simp add: buildAccelAux_def cr_none_def)
qed

lemma aux_verify_fail:
  assumes "single_stops info \<noteq> {}" and "buildAccelDouble B info NoAccel = Inl e"
  shows "buildAccelAux B info NoAccel = Inl e"
  using assms by (simp add: buildAccelAux_def cr_none_def)

lemma aux_no_assert: "buildAccelAux B info NoAccel \<noteq> Inl AssertFailed"
proof (cases "single_stops info = {}")
  case True
  then show ?thesis by (simp add: aux_red_tape)
next
  case ne: False
  show ?thesis
  proof (cases "buildAccelDouble B info NoAccel")
    case (Inl e)
    with ne double_Inl [OF Inl] show ?thesis by (simp add: aux_verify_fail)
  next
    case (Inr aux)
    show ?thesis
    proof (cases "accel_type aux = ACCEL_NONE")
      case True
      then have a: "aux = NoAccel" by (cases aux) simp_all
      from single_no_assert [OF ne] obtain aux' where "buildAccelSingle B info NoAccel = Inr aux'"
        by blast
      with ne Inr a show ?thesis by (simp add: aux_via_single)
    next
      case False
      with ne Inr show ?thesis by (simp add: aux_double_wins)
    qed
  qed
qed

section \<open>The claims\<close>

text \<open>
  C1. For every input, the postcondition assertion of \<open>buildAccelAux\<close> holds, and
  if the selector produces a descriptor whose variant is not \<open>ACCEL_NONE\<close> then the
  offset of that descriptor is the input's \<open>single_offset\<close> or the input's
  \<open>double_offset\<close>.
\<close>

theorem offset_is_an_input_offset:
  "buildAccelAux B info NoAccel \<noteq> Inl AssertFailed \<and>
   (\<forall>aux avail. buildAccelAux B info NoAccel = Inr (aux, avail) \<longrightarrow>
        accel_type aux \<noteq> ACCEL_NONE \<longrightarrow>
        generic_offset aux = Some (unat (single_offset info))
        \<or> generic_offset aux = Some (unat (double_offset info)))"
proof (intro conjI allI impI)
  show "buildAccelAux B info NoAccel \<noteq> Inl AssertFailed" by (rule aux_no_assert)
next
  fix aux avail
  assume r: "buildAccelAux B info NoAccel = Inr (aux, avail)"
    and t: "accel_type aux \<noteq> ACCEL_NONE"
  show "generic_offset aux = Some (unat (single_offset info))
        \<or> generic_offset aux = Some (unat (double_offset info))"
  proof (cases "single_stops info = {}")
    case True
    with r show ?thesis by (auto simp: aux_red_tape)
  next
    case ne: False
    show ?thesis
    proof (cases "buildAccelDouble B info NoAccel")
      case (Inl e)
      with ne r show ?thesis by (simp add: aux_verify_fail)
    next
      case (Inr aux1)
      show ?thesis
      proof (cases "accel_type aux1 = ACCEL_NONE")
        case True
        then have a: "aux1 = NoAccel" by (cases aux1) simp_all
        from single_no_assert [OF ne] obtain aux'
          where s: "buildAccelSingle B info NoAccel = Inr aux'" by blast
        from aux_via_single [OF ne Inr [unfolded a] s] r have "aux' = aux" by simp
        with single_result [OF s] t show ?thesis by auto
      next
        case False
        from aux_double_wins [OF ne Inr False] r have "aux1 = aux" by simp
        with double_result [OF Inr] t show ?thesis by auto
      qed
    qed
  qed
qed

theorem offset_is_an_input_offset_witness:
  "buildAccelAux example_extern info_pair NoAccel = Inr (ExactPair 5 0x41 0x42, True) \<and>
   generic_offset (ExactPair 5 0x41 0x42 :: nat AccelAux)
     = Some (unat (double_offset info_pair))"
proof -
  have r: "buildAccelAux example_extern info_pair NoAccel = Inr (ExactPair 5 0x41 0x42, True)"
    by code_simp
  have n: "generic_offset (ExactPair 5 0x41 0x42 :: nat AccelAux)
             \<noteq> Some (unat (single_offset info_pair))"
    by (simp add: info_pair_def)
  from offset_is_an_input_offset [of example_extern info_pair] r
  have "generic_offset (ExactPair 5 0x41 0x42 :: nat AccelAux)
          = Some (unat (single_offset info_pair))
        \<or> generic_offset (ExactPair 5 0x41 0x42 :: nat AccelAux)
          = Some (unat (double_offset info_pair))"
    by auto
  with n r show ?thesis by blast
qed

text \<open>
  C2. For every input in which \<open>single_stops\<close> is the empty set, the selector returns
  the red-tape variant with offset \<open>single_offset\<close> and reports that acceleration is
  available, whatever \<open>double_stop1\<close>, \<open>double_stop2\<close> and \<open>double_offset\<close> are.
\<close>

theorem red_tape_when_no_single_stops:
  "single_stops info = {} \<Longrightarrow>
     buildAccelAux B info NoAccel = Inr (RedTape (unat (single_offset info)), True)"
  by (simp add: buildAccelAux_def cr_none_def)

theorem red_tape_when_no_single_stops_witness:
  "single_stops info_no_stops = {} \<and>
   buildAccelAux example_extern info_no_stops NoAccel = Inr (RedTape 3, True)"
proof -
  have h: "single_stops info_no_stops = {}" by (simp add: info_no_stops_def)
  from red_tape_when_no_single_stops [OF h, of example_extern] h
  show ?thesis by (simp add: info_no_stops_def)
qed

text \<open>
  C3, as amended. For every input in which \<open>single_stops\<close> is not empty,
  \<open>double_offset\<close> fits in 8 bits, \<open>double_stop2\<close> is not empty and one of the three
  double-byte conditions holds, the selector reports that acceleration is available
  and the descriptor is a double-byte variant (\<open>ACCEL_DVERM\<close>, \<open>ACCEL_DVERM_NOCASE\<close>
  or \<open>ACCEL_DSHUFTI\<close>), also when a single stop byte would give an exact single-byte
  scheme.
\<close>

theorem double_scheme_has_priority:
  assumes "single_stops info \<noteq> {}" and "unat (double_offset info) \<le> 255"
    and "double_stop2 info \<noteq> {}" and "double_scheme_applies info"
  shows "\<exists>aux. buildAccelAux B info NoAccel = Inr (aux, True) \<and>
           (accel_type aux = ACCEL_DVERM \<or> accel_type aux = ACCEL_DVERM_NOCASE
            \<or> accel_type aux = ACCEL_DSHUFTI)"
proof -
  from double_applies [OF assms(2,4), of B] obtain aux
    where d: "buildAccelDouble B info NoAccel = Inr aux"
      and t: "accel_type aux = ACCEL_DVERM \<or> accel_type aux = ACCEL_DVERM_NOCASE
            \<or> accel_type aux = ACCEL_DSHUFTI" by blast
  from t have "accel_type aux \<noteq> ACCEL_NONE" by auto
  from aux_double_wins [OF assms(1) d this] t show ?thesis by blast
qed

theorem double_scheme_has_priority_witness:
  "card (single_stops info_pair) = 1 \<and> double_scheme_applies info_pair \<and>
   (\<exists>aux. buildAccelAux example_extern info_pair NoAccel = Inr (aux, True) \<and>
      (accel_type aux = ACCEL_DVERM \<or> accel_type aux = ACCEL_DVERM_NOCASE
       \<or> accel_type aux = ACCEL_DSHUFTI))"
proof -
  have h1: "single_stops info_pair \<noteq> {}" by (simp add: info_pair_def)
  have h2: "unat (double_offset info_pair) \<le> 255" by (simp add: info_pair_def)
  have h3: "double_stop2 info_pair \<noteq> {}" by (simp add: info_pair_def)
  have h4: "double_scheme_applies info_pair"
    by (simp add: info_pair_def double_scheme_applies_def cr_count_def)
  have "card (single_stops info_pair) = 1" by (simp add: info_pair_def)
  with h4 double_scheme_has_priority [OF h1 h2 h3 h4, of example_extern]
  show ?thesis by blast
qed

text \<open>
  The claim as it stands fails on the input with the single pair \<open>(0x41, 0x42)\<close>, no
  first byte and no single stop byte: the exact-pair condition holds, and the result
  is the red-tape variant, which is not a double-byte variant.
\<close>

theorem double_scheme_priority_counterexample:
  "double_stop2 info_no_stops_pair \<noteq> {} \<and> double_scheme_applies info_no_stops_pair \<and>
   buildAccelAux example_extern info_no_stops_pair NoAccel = Inr (RedTape 3, True) \<and>
   accel_type (RedTape 3 :: nat AccelAux) = ACCEL_RED_TAPE"
proof (intro conjI)
  show "double_stop2 info_no_stops_pair \<noteq> {}" by (simp add: info_no_stops_pair_def)
  show "double_scheme_applies info_no_stops_pair"
    by (simp add: info_no_stops_pair_def double_scheme_applies_def cr_count_def)
  show "buildAccelAux example_extern info_no_stops_pair NoAccel = Inr (RedTape 3, True)"
    by code_simp
  show "accel_type (RedTape 3 :: nat AccelAux) = ACCEL_RED_TAPE" by simp
qed

text \<open>
  C4, as amended. \<open>isCaselessDouble\<close> returns true for a set of byte pairs if and only
  if the set has exactly four members and they are the combinations of a byte and
  that byte with bit \<open>0x20\<close> toggled, in each position. The bytes need not be letters.
\<close>

theorem isCaselessDouble_four_toggles:
  "isCaselessDouble stop \<longleftrightarrow>
     card stop = 4 \<and>
     (\<exists>x\<in>stop. stop = {fst x, case_toggle (fst x)} \<times> {snd x, case_toggle (snd x)})"
proof
  assume c: "isCaselessDouble stop"
  then have "card stop = 4" by (simp add: isCaselessDouble_iff)
  from this caseless_is_square [OF c] show "card stop = 4 \<and>
     (\<exists>x\<in>stop. stop = {fst x, case_toggle (fst x)} \<times> {snd x, case_toggle (snd x)})" ..
next
  assume "card stop = 4 \<and>
     (\<exists>x\<in>stop. stop = {fst x, case_toggle (fst x)} \<times> {snd x, case_toggle (snd x)})"
  then have "\<exists>x\<in>stop. stop = {fst x, case_toggle (fst x)} \<times> {snd x, case_toggle (snd x)}" ..
  then obtain x where "stop = {fst x, case_toggle (fst x)} \<times> {snd x, case_toggle (snd x)}" ..
  then show "isCaselessDouble stop" by (simp only: square_is_caseless)
qed

theorem isCaselessDouble_four_toggles_witness:
  "isCaselessDouble {(0x41, 0x42), (0x41, 0x62), (0x61, 0x42), (0x61, 0x62)}"
proof -
  let ?s = "{(0x41, 0x42), (0x41, 0x62), (0x61, 0x42), (0x61, 0x62)} :: (u8 \<times> u8) set"
  have "card ?s = 4" by simp
  moreover have "\<exists>x\<in>?s. ?s = {fst x, case_toggle (fst x)} \<times> {snd x, case_toggle (snd x)}"
    by (rule bexI [where x = "(0x41, 0x42)"]) (auto simp: case_toggle_def)
  ultimately show ?thesis using isCaselessDouble_four_toggles [of ?s] by blast
qed

text \<open>
  The claim as it stands fails on the four combinations of the bytes \<open>0x10\<close> and
  \<open>0x30\<close> (a control character and the digit zero): the function returns true, and
  no byte of the set is a letter.
\<close>

theorem isCaselessDouble_letters_counterexample:
  "isCaselessDouble {(0x10, 0x10), (0x10, 0x30), (0x30, 0x10), (0x30, 0x30)} \<and>
   \<not> spec_isCaselessDouble {(0x10, 0x10), (0x10, 0x30), (0x30, 0x10), (0x30, 0x30)}"
proof
  show "isCaselessDouble {(0x10, 0x10), (0x10, 0x30), (0x30, 0x10), (0x30, 0x30)}"
    by code_simp
  show "\<not> spec_isCaselessDouble {(0x10, 0x10), (0x10, 0x30), (0x30, 0x10), (0x30, 0x30)}"
    by (simp add: spec_isCaselessDouble_def is_letter_def)
qed

text \<open>
  C5. In \<open>buildAccelDouble\<close>, with \<open>double_offset\<close> in 8 bits, when neither the
  exact-pair nor the caseless-pair condition holds, the result is \<open>ACCEL_DSHUFTI\<close>,
  with the masks of the external builder and offset \<open>double_offset\<close>, exactly when
  \<open>outs1 + outs2 \<le> 8\<close>, \<open>outs1 < outs2\<close> and \<open>outs1 \<le> 2\<close>; otherwise the descriptor is
  \<open>NoAccel\<close>, and \<open>buildAccelAux\<close> then returns what \<open>buildAccelSingle\<close> selects.
\<close>

theorem pair_class_table_heuristic:
  assumes "unat (double_offset info) \<le> 255"
    and "\<not> (cr_count (double_stop1 info) = 0 \<and> card (double_stop2 info) = 1)"
    and "\<not> (cr_count (double_stop1 info) = 0 \<and> isCaselessDouble (double_stop2 info))"
  shows "buildAccelDouble B info NoAccel =
     (if cr_count (double_stop1 info) + card (double_stop2 info) \<le> 8
         \<and> cr_count (double_stop1 info) < card (double_stop2 info)
         \<and> cr_count (double_stop1 info) \<le> 2
      then (case shuftiBuildDoubleMasks B (double_stop1 info) (double_stop2 info) of
              (lo1, hi1, lo2, hi2) \<Rightarrow>
                Inr (PairClassTable (unat (double_offset info)) lo1 hi1 lo2 hi2))
      else Inr NoAccel) \<and>
     (\<not> (cr_count (double_stop1 info) + card (double_stop2 info) \<le> 8
         \<and> cr_count (double_stop1 info) < card (double_stop2 info)
         \<and> cr_count (double_stop1 info) \<le> 2) \<longrightarrow>
      single_stops info \<noteq> {} \<longrightarrow>
       (\<exists>aux. buildAccelSingle B info NoAccel = Inr aux \<and>
         buildAccelAux B info NoAccel = Inr (aux, accel_type aux \<noteq> ACCEL_NONE)))"
proof (intro conjI impI)
  show d: "buildAccelDouble B info NoAccel =
     (if cr_count (double_stop1 info) + card (double_stop2 info) \<le> 8
         \<and> cr_count (double_stop1 info) < card (double_stop2 info)
         \<and> cr_count (double_stop1 info) \<le> 2
      then (case shuftiBuildDoubleMasks B (double_stop1 info) (double_stop2 info) of
              (lo1, hi1, lo2, hi2) \<Rightarrow>
                Inr (PairClassTable (unat (double_offset info)) lo1 hi1 lo2 hi2))
      else Inr NoAccel)"
    by (rule double_heuristic [OF assms])
  assume h: "\<not> (cr_count (double_stop1 info) + card (double_stop2 info) \<le> 8
         \<and> cr_count (double_stop1 info) < card (double_stop2 info)
         \<and> cr_count (double_stop1 info) \<le> 2)" and ne: "single_stops info \<noteq> {}"
  from d h have d': "buildAccelDouble B info NoAccel = Inr NoAccel" by simp
  from single_no_assert [OF ne] obtain aux where s: "buildAccelSingle B info NoAccel = Inr aux"
    by blast
  from aux_via_single [OF ne d' s] s
  show "\<exists>aux. buildAccelSingle B info NoAccel = Inr aux \<and>
         buildAccelAux B info NoAccel = Inr (aux, accel_type aux \<noteq> ACCEL_NONE)" by blast
qed

theorem pair_class_table_heuristic_witness:
  "buildAccelDouble example_extern info_heuristic NoAccel = Inr (PairClassTable 5 3 4 5 6) \<and>
   buildAccelDouble example_extern info_heuristic_fails NoAccel = Inr NoAccel"
proof
  have h1: "unat (double_offset info_heuristic) \<le> 255" by (simp add: info_heuristic_def)
  have h2: "\<not> (cr_count (double_stop1 info_heuristic) = 0
               \<and> card (double_stop2 info_heuristic) = 1)"
    by (simp add: info_heuristic_def cr_count_def)
  have h3: "\<not> (cr_count (double_stop1 info_heuristic) = 0
               \<and> isCaselessDouble (double_stop2 info_heuristic))"
    by (simp add: info_heuristic_def cr_count_def)
  from pair_class_table_heuristic [OF h1 h2 h3, of example_extern]
  show "buildAccelDouble example_extern info_heuristic NoAccel = Inr (PairClassTable 5 3 4 5 6)"
    by (simp add: info_heuristic_def example_extern_def cr_count_def)
next
  have h1: "unat (double_offset info_heuristic_fails) \<le> 255"
    by (simp add: info_heuristic_fails_def)
  have h2: "\<not> (cr_count (double_stop1 info_heuristic_fails) = 0
               \<and> card (double_stop2 info_heuristic_fails) = 1)"
    by (simp add: info_heuristic_fails_def cr_count_def)
  have h3: "\<not> (cr_count (double_stop1 info_heuristic_fails) = 0
               \<and> isCaselessDouble (double_stop2 info_heuristic_fails))"
    by (simp add: info_heuristic_fails_def cr_count_def)
  from pair_class_table_heuristic [OF h1 h2 h3, of example_extern]
  show "buildAccelDouble example_extern info_heuristic_fails NoAccel = Inr NoAccel"
    by (simp add: info_heuristic_fails_def example_extern_def cr_count_def)
qed

text \<open>
  C6. When \<open>single_stops\<close> is the two cases \<open>{p, q}\<close> of one letter,
  \<open>buildAccelSingle\<close> yields \<open>ACCEL_VERM_NOCASE\<close> with offset \<open>single_offset\<close> and the
  case-cleared byte, and so does \<open>buildAccelAux\<close> when \<open>double_offset\<close> fits in 8
  bits and no double-byte condition holds. When \<open>single_stops\<close> is two bytes that
  are not the two cases of one letter, that path is not taken: the result is what
  the table builder gives, else the bitmap if two bytes are within the maximum
  stop-character count, else \<open>NoAccel\<close>.
\<close>

theorem exact_byte_ci_selection:
  "(single_stops info = {p, q} \<longrightarrow> case_variants p q \<longrightarrow>
      buildAccelSingle B info NoAccel =
        Inr (ExactByteCI (unat (single_offset info)) (p AND CASE_CLEAR))) \<and>
   (single_stops info = {p, q} \<longrightarrow> case_variants p q \<longrightarrow>
      unat (double_offset info) \<le> 255 \<longrightarrow> \<not> double_scheme_applies info \<longrightarrow>
      buildAccelAux B info NoAccel =
        Inr (ExactByteCI (unat (single_offset info)) (p AND CASE_CLEAR), True)) \<and>
   (single_stops info = {p, q} \<longrightarrow> p \<noteq> q \<longrightarrow> \<not> case_variants p q \<longrightarrow>
      buildAccelSingle B info NoAccel =
        (case shuftiBuildMasks B (single_stops info) of
           Some (lo, hi) \<Rightarrow> Inr (ByteClassTable (unat (single_offset info)) lo hi)
         | None \<Rightarrow>
             if 2 \<le> ACCEL_MAX_STOP_CHAR B
             then (case truffleBuildMasks B (single_stops info) of
                     (mask1, mask2) \<Rightarrow> Inr (FullBitmap (unat (single_offset info)) mask1 mask2))
             else Inr NoAccel))"
proof (intro conjI impI)
  assume "single_stops info = {p, q}" and "case_variants p q"
  then show "buildAccelSingle B info NoAccel =
        Inr (ExactByteCI (unat (single_offset info)) (p AND CASE_CLEAR))"
    by (rule single_caseless)
next
  assume s: "single_stops info = {p, q}" and v: "case_variants p q"
    and o: "unat (double_offset info) \<le> 255" and d: "\<not> double_scheme_applies info"
  have ne: "single_stops info \<noteq> {}" using s by simp
  from aux_via_single [OF ne double_declines [OF o d] single_caseless [OF s v]]
  show "buildAccelAux B info NoAccel =
        Inr (ExactByteCI (unat (single_offset info)) (p AND CASE_CLEAR), True)"
    by simp
next
  assume s: "single_stops info = {p, q}" and ne: "p \<noteq> q" and nv: "\<not> case_variants p q"
  have 1: "single_stops info \<noteq> {}" using s by simp
  have 2: "single_stops info \<noteq> UNIV" using s pair_not_full [OF ne] by simp
  have c: "cr_count (single_stops info) = 2" using s ne by (simp add: cr_count_def)
  then have 3: "cr_count (single_stops info) \<noteq> 1" by simp
  have 4: "\<not> (cr_count (single_stops info) = 2 \<and> isCaselessChar (single_stops info))"
    using s nv by (simp add: isCaselessChar_pair)
  from single_fallback [OF 1 2 3 4, of B] c
  show "buildAccelSingle B info NoAccel =
        (case shuftiBuildMasks B (single_stops info) of
           Some (lo, hi) \<Rightarrow> Inr (ByteClassTable (unat (single_offset info)) lo hi)
         | None \<Rightarrow>
             if 2 \<le> ACCEL_MAX_STOP_CHAR B
             then (case truffleBuildMasks B (single_stops info) of
                     (mask1, mask2) \<Rightarrow> Inr (FullBitmap (unat (single_offset info)) mask1 mask2))
             else Inr NoAccel)"
    by simp
qed

theorem exact_byte_ci_selection_witness:
  "case_variants 0x41 0x61 \<and>
   buildAccelSingle example_extern info_letter NoAccel = Inr (ExactByteCI 0 0x41) \<and>
   buildAccelAux example_extern info_letter NoAccel = Inr (ExactByteCI 0 0x41, True) \<and>
   \<not> case_variants 0x41 0x42 \<and>
   buildAccelSingle example_extern info_two_bytes NoAccel = Inr (FullBitmap 0 1 2)"
proof -
  have v: "case_variants 0x41 0x61"
    by (simp add: case_variants_def is_letter_def case_toggle_def)
  have s: "single_stops info_letter = {0x41, 0x61}" by (simp add: info_letter_def)
  have o: "unat (double_offset info_letter) \<le> 255" by (simp add: info_letter_def)
  have d: "\<not> double_scheme_applies info_letter"
    by (simp add: info_letter_def double_scheme_applies_def)
  have nv: "\<not> case_variants 0x41 0x42"
    by (simp add: case_variants_def is_letter_def case_toggle_def)
  have s2: "single_stops info_two_bytes = {0x41, 0x42}" by (simp add: info_two_bytes_def)
  have ne: "(0x41 :: u8) \<noteq> 0x42" by simp
  from exact_byte_ci_selection [of info_letter "0x41" "0x61" example_extern] s v
  have a: "buildAccelSingle example_extern info_letter NoAccel = Inr (ExactByteCI 0 0x41)"
    by (simp add: info_letter_def CASE_CLEAR_def)
  from exact_byte_ci_selection [of info_letter "0x41" "0x61" example_extern] s v o d
  have b: "buildAccelAux example_extern info_letter NoAccel = Inr (ExactByteCI 0 0x41, True)"
    by (simp add: info_letter_def CASE_CLEAR_def)
  from exact_byte_ci_selection [of info_two_bytes "0x41" "0x42" example_extern] s2 ne nv
  have c: "buildAccelSingle example_extern info_two_bytes NoAccel = Inr (FullBitmap 0 1 2)"
    by (simp add: info_two_bytes_def example_extern_def)
  from v a b nv c show ?thesis by (intro conjI)
qed

text \<open>
  C7. In \<open>buildAccelDouble\<close>, with \<open>double_offset\<close> in 8 bits: if \<open>double_stop2\<close> is
  empty the descriptor stays \<open>NoAccel\<close>; if \<open>double_stop1\<close> is empty and
  \<open>double_stop2\<close> has exactly one pair, the result is \<open>ACCEL_DVERM\<close> with offset
  \<open>double_offset\<close> and the two bytes of that pair.
\<close>

theorem double_decline_and_exact_pair:
  assumes "unat (double_offset info) \<le> 255"
  shows "(double_stop2 info = {} \<longrightarrow> buildAccelDouble B info NoAccel = Inr NoAccel) \<and>
         (double_stop1 info = {} \<longrightarrow> double_stop2 info = {(c1, c2)} \<longrightarrow>
            buildAccelDouble B info NoAccel =
              Inr (ExactPair (unat (double_offset info)) c1 c2))"
proof -
  from verify_u8_Inr [OF assms(1)] obtain b
    where b: "verify_u8 (unat (double_offset info)) = Inr b" "unat b = unat (double_offset info)"
    by blast
  then show ?thesis
    by (simp add: buildAccelDouble_def Let_def cr_count_def flat_begin_single)
qed

theorem double_decline_and_exact_pair_witness:
  "buildAccelDouble example_extern info_pair NoAccel = Inr (ExactPair 5 0x41 0x42) \<and>
   buildAccelDouble example_extern info_letter NoAccel = Inr NoAccel"
proof
  have h: "unat (double_offset info_pair) \<le> 255" by (simp add: info_pair_def)
  from double_decline_and_exact_pair
         [OF h, where B = example_extern and ?c1.0 = "0x41" and ?c2.0 = "0x42"]
  show "buildAccelDouble example_extern info_pair NoAccel = Inr (ExactPair 5 0x41 0x42)"
    by (simp add: info_pair_def)
next
  have h: "unat (double_offset info_letter) \<le> 255" by (simp add: info_letter_def)
  from double_decline_and_exact_pair [OF h, where B = example_extern]
  show "buildAccelDouble example_extern info_letter NoAccel = Inr NoAccel"
    by (simp add: info_letter_def)
qed

text \<open>
  C8. In \<open>buildAccelSingle\<close>, for a stop set that is neither empty nor full, when
  the exact and the case-insensitive paths do not apply and the external table
  builder declines: if the count of \<open>single_stops\<close> is at most
  \<open>ACCEL_MAX_STOP_CHAR\<close> the result is \<open>ACCEL_TRUFFLE\<close> with the masks of the external
  bitmap builder and offset \<open>single_offset\<close>; if the count is above it the descriptor
  stays \<open>NoAccel\<close>, and \<open>buildAccelAux\<close>, when \<open>buildAccelDouble\<close> has declined,
  returns \<open>NoAccel\<close> and false.
\<close>

theorem full_bitmap_or_none:
  assumes "single_stops info \<noteq> {}" and "single_stops info \<noteq> UNIV"
    and "cr_count (single_stops info) \<noteq> 1"
    and "\<not> (cr_count (single_stops info) = 2 \<and> isCaselessChar (single_stops info))"
    and "shuftiBuildMasks B (single_stops info) = None"
  shows "buildAccelSingle B info NoAccel =
     (if cr_count (single_stops info) \<le> ACCEL_MAX_STOP_CHAR B
      then (case truffleBuildMasks B (single_stops info) of
              (mask1, mask2) \<Rightarrow> Inr (FullBitmap (unat (single_offset info)) mask1 mask2))
      else Inr NoAccel) \<and>
     (buildAccelDouble B info NoAccel = Inr NoAccel \<longrightarrow>
      ACCEL_MAX_STOP_CHAR B < cr_count (single_stops info) \<longrightarrow>
      buildAccelAux B info NoAccel = Inr (NoAccel, False))"
proof (intro conjI impI)
  show s: "buildAccelSingle B info NoAccel =
     (if cr_count (single_stops info) \<le> ACCEL_MAX_STOP_CHAR B
      then (case truffleBuildMasks B (single_stops info) of
              (mask1, mask2) \<Rightarrow> Inr (FullBitmap (unat (single_offset info)) mask1 mask2))
      else Inr NoAccel)"
    using single_fallback [OF assms(1-4), of B] assms(5) by simp
  assume d: "buildAccelDouble B info NoAccel = Inr NoAccel"
    and m: "ACCEL_MAX_STOP_CHAR B < cr_count (single_stops info)"
  from s m have "buildAccelSingle B info NoAccel = Inr NoAccel" by simp
  from aux_via_single [OF assms(1) d this]
  show "buildAccelAux B info NoAccel = Inr (NoAccel, False)" by simp
qed

theorem full_bitmap_or_none_witness:
  "buildAccelSingle example_extern info_three_bytes NoAccel = Inr (FullBitmap 7 1 2) \<and>
   buildAccelSingle example_extern info_four_bytes NoAccel = Inr NoAccel \<and>
   buildAccelAux example_extern info_four_bytes NoAccel = Inr (NoAccel, False)"
proof -
  have a1: "single_stops info_three_bytes \<noteq> {}" by (simp add: info_three_bytes_def)
  have a2: "single_stops info_three_bytes \<noteq> UNIV"
    by (simp add: info_three_bytes_def flip: card_u8_full)
  have a3: "cr_count (single_stops info_three_bytes) \<noteq> 1"
    by (simp add: info_three_bytes_def cr_count_def)
  have a4: "\<not> (cr_count (single_stops info_three_bytes) = 2
               \<and> isCaselessChar (single_stops info_three_bytes))"
    by (simp add: info_three_bytes_def cr_count_def)
  have a5: "shuftiBuildMasks example_extern (single_stops info_three_bytes) = None"
    by (simp add: example_extern_def)
  have b1: "single_stops info_four_bytes \<noteq> {}" by (simp add: info_four_bytes_def)
  have b2: "single_stops info_four_bytes \<noteq> UNIV"
    by (simp add: info_four_bytes_def flip: card_u8_full)
  have b3: "cr_count (single_stops info_four_bytes) \<noteq> 1"
    by (simp add: info_four_bytes_def cr_count_def)
  have b4: "\<not> (cr_count (single_stops info_four_bytes) = 2
               \<and> isCaselessChar (single_stops info_four_bytes))"
    by (simp add: info_four_bytes_def cr_count_def)
  have b5: "shuftiBuildMasks example_extern (single_stops info_four_bytes) = None"
    by (simp add: example_extern_def)
  have d: "buildAccelDouble example_extern info_four_bytes NoAccel = Inr NoAccel"
    by code_simp
  from full_bitmap_or_none [OF a1 a2 a3 a4 a5]
  have x: "buildAccelSingle example_extern info_three_bytes NoAccel = Inr (FullBitmap 7 1 2)"
    by (simp add: info_three_bytes_def example_extern_def cr_count_def)
  from full_bitmap_or_none [OF b1 b2 b3 b4 b5]
  have y: "buildAccelSingle example_extern info_four_bytes NoAccel = Inr NoAccel"
    by (simp add: info_four_bytes_def example_extern_def cr_count_def)
  from full_bitmap_or_none [OF b1 b2 b3 b4 b5] d
  have z: "buildAccelAux example_extern info_four_bytes NoAccel = Inr (NoAccel, False)"
    by (simp add: info_four_bytes_def example_extern_def cr_count_def)
  from x y z show ?thesis by (intro conjI)
qed

text \<open>
  C9. For every input in which \<open>single_stops\<close> contains all 256 byte values,
  \<open>double_offset\<close> fits in 8 bits and no double-byte condition holds, the selector
  leaves the descriptor \<open>NoAccel\<close> and returns false.
\<close>

theorem all_bytes_stop_gives_none:
  assumes "single_stops info = UNIV"
    and "unat (double_offset info) \<le> 255" and "\<not> double_scheme_applies info"
  shows "buildAccelAux B info NoAccel = Inr (NoAccel, False)"
proof -
  have ne: "single_stops info \<noteq> {}" using assms(1) by simp
  have s: "buildAccelSingle B info NoAccel = Inr NoAccel"
    using assms(1) by (simp add: buildAccelSingle_def cr_all_iff)
  from aux_via_single [OF ne double_declines [OF assms(2,3)] s] show ?thesis by simp
qed

theorem all_bytes_stop_gives_none_witness:
  "single_stops info_all_bytes = UNIV \<and>
   buildAccelAux example_extern info_all_bytes NoAccel = Inr (NoAccel, False)"
proof -
  have h1: "single_stops info_all_bytes = UNIV" by (simp add: info_all_bytes_def)
  have h2: "unat (double_offset info_all_bytes) \<le> 255" by (simp add: info_all_bytes_def)
  have h3: "\<not> double_scheme_applies info_all_bytes"
    by (simp add: info_all_bytes_def double_scheme_applies_def)
  from h1 all_bytes_stop_gives_none [OF h1 h2 h3, of example_extern]
  show ?thesis by (intro conjI)
qed

text \<open>
  C10. \<open>buildAccelDouble\<close> checks \<open>double_offset\<close> with \<open>verify_u8\<close> before anything
  else: it fails on that check exactly when \<open>double_offset\<close> is above 255, whatever
  \<open>double_stop2\<close> holds, the empty set included. So \<open>buildAccelAux\<close> fails on the
  check exactly when \<open>single_stops\<close> is not empty and \<open>double_offset\<close> is above 255,
  and never when \<open>double_offset\<close> is at most 255.
\<close>

theorem verify_u8_precedes_decline:
  "(buildAccelDouble B info aux = Inl VerifyFailed \<longleftrightarrow> 255 < unat (double_offset info)) \<and>
   (buildAccelAux B info NoAccel = Inl VerifyFailed \<longleftrightarrow>
      single_stops info \<noteq> {} \<and> 255 < unat (double_offset info))"
proof (intro conjI)
  show "buildAccelDouble B info aux = Inl VerifyFailed \<longleftrightarrow> 255 < unat (double_offset info)"
    by (rule double_fail)
next
  show "buildAccelAux B info NoAccel = Inl VerifyFailed \<longleftrightarrow>
          single_stops info \<noteq> {} \<and> 255 < unat (double_offset info)"
  proof (cases "single_stops info = {}")
    case True
    then show ?thesis by (simp add: aux_red_tape)
  next
    case ne: False
    show ?thesis
    proof (cases "255 < unat (double_offset info)")
      case True
      then have "buildAccelDouble B info NoAccel = Inl VerifyFailed" by (simp add: double_fail)
      with ne True show ?thesis by (simp add: aux_verify_fail)
    next
      case False
      then obtain aux1 where d: "buildAccelDouble B info NoAccel = Inr aux1"
        using double_ok [of info B] by auto
      show ?thesis
      proof (cases "accel_type aux1 = ACCEL_NONE")
        case True
        then have a: "aux1 = NoAccel" by (cases aux1) simp_all
        from single_no_assert [OF ne] obtain aux'
          where s: "buildAccelSingle B info NoAccel = Inr aux'" by blast
        from aux_via_single [OF ne d [unfolded a] s] False show ?thesis by simp
      next
        case nz: False
        from aux_double_wins [OF ne d nz] False show ?thesis by simp
      qed
    qed
  qed
qed

theorem verify_u8_precedes_decline_witness:
  "double_stop2 info_wide_offset = {} \<and>
   buildAccelDouble example_extern info_wide_offset NoAccel = Inl VerifyFailed \<and>
   buildAccelAux example_extern info_wide_offset NoAccel = Inl VerifyFailed \<and>
   buildAccelAux example_extern info_letter NoAccel \<noteq> Inl VerifyFailed"
proof -
  have e: "double_stop2 info_wide_offset = {}" by (simp add: info_wide_offset_def)
  from verify_u8_precedes_decline [of example_extern info_wide_offset NoAccel]
  have a: "buildAccelDouble example_extern info_wide_offset NoAccel = Inl VerifyFailed"
    and b: "buildAccelAux example_extern info_wide_offset NoAccel = Inl VerifyFailed"
    by (simp_all add: info_wide_offset_def)
  from verify_u8_precedes_decline [of example_extern info_letter NoAccel]
  have c: "buildAccelAux example_extern info_letter NoAccel \<noteq> Inl VerifyFailed"
    by (simp add: info_letter_def)
  from e a b c show ?thesis by (intro conjI)
qed

end
